theory Spec2Isabelle
  imports Main "HOL-Library.Word"
begin

unbundle bit_operations_syntax

section \<open>Data model\<close>

text \<open>
  A frame is a Python 2 byte string: a list of 8-bit values. A register descriptor is the
  pair \<open>(register[0], register[1])\<close> of Python integers: the start address and the kind
  tag (0 for an integer register, 1 for a float register).
\<close>

type_synonym byte = "8 word"
type_synonym frame = "byte list"
type_synonym register = "int \<times> int"

datatype byteorder = Little | Big

datatype error =
    RegisterAddressException
  | BrokenTransductorException
  | StructError
  | IndexError
  | UnboundLocalError

section \<open>The struct module, as far as the source uses it\<close>

text \<open>\<open>struct.pack("<H", v)\<close>: two bytes, low byte first; \<open>struct.error\<close> outside 0..65535.\<close>

definition pack_H_le :: "int \<Rightarrow> error + frame" where
  "pack_H_le v =
     (if 0 \<le> v \<and> v < 65536 then Inr [word_of_int (v mod 256), word_of_int (v div 256)]
      else Inl StructError)"

text \<open>\<open>struct.pack(">2H", a, b)\<close>: two 16-bit values, each high byte first.\<close>

definition pack_2H_be :: "int \<Rightarrow> int \<Rightarrow> error + frame" where
  "pack_2H_be a b =
     (if 0 \<le> a \<and> a < 65536 \<and> 0 \<le> b \<and> b < 65536
      then Inr [word_of_int (a div 256), word_of_int (a mod 256),
                word_of_int (b div 256), word_of_int (b mod 256)]
      else Inl StructError)"

text \<open>\<open>struct.pack("2B", 0x01, 0x03)\<close>.\<close>

definition pack_2B_01_03 :: frame where
  "pack_2B_01_03 = [0x01, 0x03]"

text \<open>\<open>struct.unpack("1h", msg)[0]\<close>: a native signed 16-bit integer from exactly two bytes.\<close>

definition unpack_h :: "byteorder \<Rightarrow> frame \<Rightarrow> error + int" where
  "unpack_h bo msg =
     (if length msg \<noteq> 2 then Inl StructError
      else let u = (case bo of
                      Little \<Rightarrow> uint (msg ! 1) * 256 + uint (msg ! 0)
                    | Big \<Rightarrow> uint (msg ! 0) * 256 + uint (msg ! 1))
           in Inr (if 32768 \<le> u then u - 65536 else u))"

text \<open>
  \<open>struct.unpack("1f", msg)[0]\<close>: exactly four bytes, read as the host's native
  single-precision float. The reading itself belongs to the host, so it is the parameter
  \<open>native_float\<close>, applied to the host byte order and the four bytes handed over.
\<close>

definition unpack_f :: "(byteorder \<Rightarrow> frame \<Rightarrow> 'f) \<Rightarrow> byteorder \<Rightarrow> frame \<Rightarrow> error + 'f" where
  "unpack_f native_float bo msg =
     (if length msg \<noteq> 4 then Inl StructError else Inr (native_float bo msg))"

text \<open>\<open>range(0, n, step)\<close> for a positive step.\<close>

definition py_range :: "nat \<Rightarrow> nat \<Rightarrow> nat list" where
  "py_range n step = map (\<lambda>k. k * step) [0 ..< (n + step - 1) div step]"

section \<open>ModbusRTU\<close>

subsection \<open>CRC\<close>

text \<open>One pass of the inner loop body: \<open>lsb = crc & 1; crc >>= 1; if lsb: crc ^= 0xA001\<close>.\<close>

definition crc_round :: "int \<Rightarrow> int" where
  "crc_round crc =
     (let lsb = crc AND 1; crc' = drop_bit 1 crc
      in if lsb \<noteq> 0 then crc' XOR 0xA001 else crc')"

text \<open>\<open>for i in range(8)\<close>.\<close>

fun crc_rounds :: "nat \<Rightarrow> int \<Rightarrow> int" where
  "crc_rounds 0 crc = crc"
| "crc_rounds (Suc n) crc = crc_rounds n (crc_round crc)"

text \<open>The outer loop body for one byte: \<open>crc ^= next_byte\<close>, then the eight rounds.\<close>

definition crc_byte :: "int \<Rightarrow> byte \<Rightarrow> int" where
  "crc_byte crc item = crc_rounds 8 (crc XOR uint item)"

definition computate_crc :: "frame \<Rightarrow> int" where
  "computate_crc packaged_message = fold (\<lambda>item crc. crc_byte crc item) packaged_message 0xFFFF"

definition check_crc :: "frame \<Rightarrow> bool" where
  "check_crc packaged_message \<longleftrightarrow> computate_crc packaged_message = 0"

subsection \<open>Request frames\<close>

text \<open>The body of the loop of \<open>create_messages\<close> for one register.\<close>

definition create_message :: "register \<Rightarrow> error + frame" where
  "create_message register =
     (case (if snd register = 0 then pack_2H_be (fst register) 1
            else if snd register = 1 then pack_2H_be (fst register) 2
            else Inl RegisterAddressException) of
        Inl e \<Rightarrow> Inl e
      | Inr body \<Rightarrow>
          (let packaged_message = pack_2B_01_03 @ body
           in case pack_H_le (computate_crc packaged_message) of
                Inl e \<Rightarrow> Inl e
              | Inr crc \<Rightarrow> Inr (packaged_message @ crc)))"

fun create_messages_loop :: "register list \<Rightarrow> frame list \<Rightarrow> error + frame list" where
  "create_messages_loop [] messages_to_send = Inr messages_to_send"
| "create_messages_loop (register # registers) messages_to_send =
     (case create_message register of
        Inl e \<Rightarrow> Inl e
      | Inr packaged_message \<Rightarrow>
          create_messages_loop registers (messages_to_send @ [packaged_message]))"

definition create_messages :: "register list \<Rightarrow> error + frame list" where
  "create_messages registers = create_messages_loop registers []"

subsection \<open>Response decoding\<close>

text \<open>
  The loop of \<open>get_int_value_from_response\<close> over the indices \<open>range(0, n_bytes, 2)\<close>:
  on a little-endian host the bytes at \<open>i\<close> and \<open>i + 1\<close> are exchanged (an index past the
  end of the bytearray raises \<open>IndexError\<close>); on a big-endian host the body does nothing.
\<close>

fun int_swap_loop :: "byteorder \<Rightarrow> nat list \<Rightarrow> frame \<Rightarrow> error + frame" where
  "int_swap_loop bo [] msg = Inr msg"
| "int_swap_loop bo (i # is) msg =
     (if bo = Little then
        (if i + 1 < length msg
         then int_swap_loop bo is (msg[i := msg ! (i + 1), i + 1 := msg ! i])
         else Inl IndexError)
      else int_swap_loop bo is msg)"

definition get_int_value_from_response :: "byteorder \<Rightarrow> frame \<Rightarrow> error + int" where
  "get_int_value_from_response bo message_received_data =
     (if length message_received_data \<le> 2 then Inl IndexError
      else let n_bytes = unat (message_received_data ! 2);
               msg = drop 3 (take (length message_received_data - 2) message_received_data)
           in case int_swap_loop bo (py_range n_bytes 2) msg of
                Inl e \<Rightarrow> Inl e
              | Inr msg' \<Rightarrow> unpack_h bo msg')"

text \<open>
  The loop of \<open>get_float_value_from_response\<close> over \<open>range(0, n_bytes, 4)\<close>: both
  branches touch the indices \<open>i .. i + 3\<close>.
\<close>

fun float_swap_loop :: "byteorder \<Rightarrow> nat list \<Rightarrow> frame \<Rightarrow> error + frame" where
  "float_swap_loop bo [] msg = Inr msg"
| "float_swap_loop bo (i # is) msg =
     (if i + 3 < length msg then
        (if bo = Little
         then float_swap_loop bo is
                (msg[i := msg ! (i + 1), i + 1 := msg ! i,
                     i + 2 := msg ! (i + 3), i + 3 := msg ! (i + 2)])
         else float_swap_loop bo is
                (msg[i := msg ! (i + 2), i + 1 := msg ! (i + 3),
                     i + 2 := msg ! i, i + 3 := msg ! (i + 1)]))
      else Inl IndexError)"

definition get_float_value_from_response ::
  "(byteorder \<Rightarrow> frame \<Rightarrow> 'f) \<Rightarrow> byteorder \<Rightarrow> frame \<Rightarrow> error + 'f" where
  "get_float_value_from_response native_float bo message_received_data =
     (if length message_received_data \<le> 2 then Inl IndexError
      else let n_bytes = unat (message_received_data ! 2);
               msg = drop 3 (take (length message_received_data - 2) message_received_data)
           in case float_swap_loop bo (py_range n_bytes 4) msg of
                Inl e \<Rightarrow> Inl e
              | Inr msg' \<Rightarrow> unpack_f native_float bo msg')"

section \<open>UdpProtocol\<close>

text \<open>
  What one pass through the \<open>try\<close> block (\<open>sendto\<close>, then \<open>recvfrom(256)\<close>) can do:
  deliver a datagram, raise \<open>socket.timeout\<close>, or raise another \<open>socket.error\<close>.
\<close>

datatype outcome = Reply frame | Timeout | SocketError

text \<open>
  The network is any deterministic environment: it decides the outcome of a \<open>try\<close>
  block from the datagrams handed to \<open>sendto\<close> so far, the current one last.
\<close>

type_synonym network = "frame list \<Rightarrow> outcome"

record transductor =
  register_addresses :: "register list"
  broken :: bool

text \<open>
  The session object. \<open>sent\<close> is not an attribute of the class: it records, in order, the
  datagrams the session has handed to \<open>socket.sendto\<close>, so that what a call sends can be
  stated.
\<close>

record udp_protocol =
  socket_created :: bool
  receive_attempts :: int
  max_receive_attempts :: int
  sent :: "frame list"

text \<open>\<open>UdpProtocol.__init__\<close>.\<close>

definition udp_protocol_init :: udp_protocol where
  "udp_protocol_init =
     \<lparr>socket_created = False, receive_attempts = 0, max_receive_attempts = 3, sent = []\<rparr>"

text \<open>
  The loop of \<open>handle_messages_via_socket\<close>. \<open>messages\<close> is the list built so far and
  \<open>message_received\<close> the local variable of that name (\<open>None\<close> while it is unbound): after
  a \<open>socket.error\<close> the \<open>append\<close> below the \<open>try\<close> statement still runs and reads it. The
  result \<open>Inr None\<close> is Python's \<open>None\<close>.
\<close>

fun handle_loop ::
  "network \<Rightarrow> frame list \<Rightarrow> frame list \<Rightarrow> frame option \<Rightarrow> frame list
     \<Rightarrow> (error + frame list option) \<times> frame list" where
  "handle_loop net [] messages message_received log = (Inr (Some messages), log)"
| "handle_loop net (message # rest) messages message_received log =
     (let log' = log @ [message]
      in case net log' of
           Reply payload \<Rightarrow> handle_loop net rest (messages @ [payload]) (Some payload) log'
         | Timeout \<Rightarrow> (Inr None, log')
         | SocketError \<Rightarrow>
             (case message_received of
                None \<Rightarrow> (Inl UnboundLocalError, log')
              | Some stale \<Rightarrow> handle_loop net rest (messages @ [stale]) message_received log'))"

definition handle_messages_via_socket ::
  "network \<Rightarrow> frame list \<Rightarrow> frame list \<Rightarrow> (error + frame list option) \<times> frame list" where
  "handle_messages_via_socket net messages_to_send log = handle_loop net messages_to_send [] None log"

text \<open>Python truth of the value of \<open>received_messages\<close>: \<open>None\<close> and \<open>[]\<close> are false.\<close>

definition truthy :: "frame list option \<Rightarrow> bool" where
  "truthy received_messages = (case received_messages of None \<Rightarrow> False | Some xs \<Rightarrow> xs \<noteq> [])"

text \<open>
  The \<open>while\<close> loop of \<open>manage_received_messages\<close>, on the loop variables
  \<open>received_messages\<close> and \<open>receive_attempts\<close> and the send log. An exception raised by
  a pass leaves the loop with the counter as it stands.
\<close>

function retry_loop ::
  "network \<Rightarrow> int \<Rightarrow> frame list \<Rightarrow> frame list option \<Rightarrow> int \<Rightarrow> frame list
     \<Rightarrow> (error + frame list option) \<times> int \<times> frame list" where
  "retry_loop net max_attempts messages_to_send received_messages attempts log =
     (if \<not> truthy received_messages \<and> attempts < max_attempts then
        (case handle_messages_via_socket net messages_to_send log of
           (Inl e, log') \<Rightarrow> (Inl e, attempts, log')
         | (Inr received, log') \<Rightarrow>
             retry_loop net max_attempts messages_to_send received
               (if \<not> truthy received then attempts + 1 else attempts) log')
      else (Inr received_messages, attempts, log))"
  by pat_completeness auto
termination
  by (relation "measure (\<lambda>(net, max_attempts, messages_to_send, received_messages, attempts, log).
         if truthy received_messages then 0 else 1 + nat (max_attempts - attempts))") auto

declare retry_loop.simps [simp del]

definition manage_received_messages ::
  "network \<Rightarrow> transductor \<Rightarrow> frame list \<Rightarrow> udp_protocol
     \<Rightarrow> (error + frame list option) \<times> udp_protocol" where
  "manage_received_messages net tr messages_to_send s =
     (case retry_loop net (max_receive_attempts s) messages_to_send (Some []) 0 (sent s) of
        (result, attempts, log) \<Rightarrow>
          (let s' = s\<lparr>receive_attempts := attempts, sent := log\<rparr>
           in case result of
                Inl e \<Rightarrow> (Inl e, s')
              | Inr received_messages \<Rightarrow>
                  if attempts = max_receive_attempts s \<and> \<not> broken tr
                  then (Inl BrokenTransductorException, s')
                  else (Inr received_messages, s')))"

definition start_communication ::
  "network \<Rightarrow> transductor \<Rightarrow> udp_protocol \<Rightarrow> (error + frame list option) \<times> udp_protocol" where
  "start_communication net tr s =
     (let s1 = (if \<not> socket_created s then s\<lparr>socket_created := True\<rparr> else s)
      in case create_messages (register_addresses tr) of
           Inl e \<Rightarrow> (Inl e, s1)
         | Inr messages_to_send \<Rightarrow> manage_received_messages net tr messages_to_send s1)"

section \<open>The documented layouts\<close>

text \<open>
  The request layout as the specification words it: unit id 1, function code 3, the start
  address and the quantity each as two bytes with the high byte first.
\<close>

definition request_layout :: "int \<Rightarrow> int \<Rightarrow> frame" where
  "request_layout address quantity =
     [0x01, 0x03, word_of_int (address div 256), word_of_int (address mod 256),
      word_of_int (quantity div 256), word_of_int (quantity mod 256)]"

text \<open>The CRC of a body as two bytes, low byte first.\<close>

definition crc_le_bytes :: "frame \<Rightarrow> frame" where
  "crc_le_bytes body =
     [word_of_int (computate_crc body mod 256), word_of_int (computate_crc body div 256)]"

text \<open>One register for an integer (kind 0), two for a float.\<close>

definition quantity_of_kind :: "int \<Rightarrow> int" where
  "quantity_of_kind kind = (if kind = 0 then 1 else 2)"

definition spec_request_frame :: "register \<Rightarrow> frame" where
  "spec_request_frame register =
     (let body = request_layout (fst register) (quantity_of_kind (snd register))
      in body @ crc_le_bytes body)"

text \<open>A signed 16-bit value on the wire: two's complement, high byte first.\<close>

definition wire_int16 :: "int \<Rightarrow> frame" where
  "wire_int16 v = [word_of_int ((v mod 65536) div 256), word_of_int (v mod 256)]"

section \<open>Scenarios\<close>

text \<open>A device with one integer register at address 16, and its request frame.\<close>

definition one_int_register :: "register list" where
  "one_int_register = [(16, 0)]"

definition request_0010 :: frame where
  "request_0010 = [0x01, 0x03, 0x00, 0x10, 0x00, 0x01, 0x85, 0xCF]"

definition request_0020 :: frame where
  "request_0020 = [0x01, 0x03, 0x00, 0x20, 0x00, 0x02, 0xC5, 0xC1]"

text \<open>The reply \<open>01 03 02 00 2A\<close> with its CRC.\<close>

definition reply_42 :: frame where
  "reply_42 = [0x01, 0x03, 0x02, 0x00, 0x2A, 0x39, 0x9B]"

text \<open>Networks: one that never answers, one that always answers, one that always fails
  softly, and one that answers the first datagram only and fails softly afterwards.\<close>

definition net_silent :: network where
  "net_silent = (\<lambda>log. Timeout)"

definition net_answering :: network where
  "net_answering = (\<lambda>log. Reply reply_42)"

definition net_failing :: network where
  "net_failing = (\<lambda>log. SocketError)"

definition net_first_only :: network where
  "net_first_only = (\<lambda>log. if length log = 1 then Reply reply_42 else SocketError)"

section \<open>The CRC\<close>

lemma crc_round_range:
  assumes "0 \<le> c" "c < 65536"
  shows "0 \<le> crc_round c \<and> crc_round c < 65536"
proof -
  have d: "0 \<le> drop_bit 1 c" "drop_bit 1 c < 2 ^ 16"
    using assms by (simp_all add: drop_bit_eq_div)
  have "drop_bit 1 c XOR 0xA001 < 2 ^ 16"
    by (rule XOR_upper) (use d in simp_all)
  moreover have "0 \<le> drop_bit 1 c XOR 0xA001"
    using d by simp
  ultimately show ?thesis
    using d by (simp add: crc_round_def Let_def)
qed

lemma crc_rounds_range:
  "0 \<le> c \<Longrightarrow> c < 65536 \<Longrightarrow> 0 \<le> crc_rounds n c \<and> crc_rounds n c < 65536"
  by (induction n arbitrary: c) (simp_all add: crc_round_range)

lemma crc_byte_range:
  assumes "0 \<le> c" "c < 65536"
  shows "0 \<le> crc_byte c b \<and> crc_byte c b < 65536"
proof -
  have u: "0 \<le> uint b" "uint b < 2 ^ 16"
    using uint_lt2p [of b] by (simp_all add: order_less_trans [of _ 256])
  have "c XOR uint b < 2 ^ 16"
    by (rule XOR_upper) (use assms u in simp_all)
  moreover have "0 \<le> c XOR uint b"
    using assms u by simp
  ultimately show ?thesis
    unfolding crc_byte_def by (intro crc_rounds_range) simp_all
qed

lemma fold_crc_range:
  "0 \<le> c \<Longrightarrow> c < 65536 \<Longrightarrow>
     0 \<le> fold (\<lambda>item crc. crc_byte crc item) msg c \<and>
     fold (\<lambda>item crc. crc_byte crc item) msg c < 65536"
  by (induction msg arbitrary: c) (simp_all add: crc_byte_range)

text \<open>The accumulator never leaves 16 bits, so packing it as \<open>"<H"\<close> cannot fail.\<close>

lemma computate_crc_range: "0 \<le> computate_crc msg \<and> computate_crc msg < 65536"
  unfolding computate_crc_def by (rule fold_crc_range) simp_all

lemma pack_crc: "pack_H_le (computate_crc body) = Inr (crc_le_bytes body)"
  using computate_crc_range [of body] by (simp add: pack_H_le_def crc_le_bytes_def)

text \<open>A round on an accumulator whose low bit is clear is a plain shift.\<close>

lemma crc_round_even:
  assumes "take_bit (Suc n) c = 0"
  shows "crc_round c = drop_bit 1 c \<and> take_bit n (drop_bit 1 c) = 0"
proof -
  have "take_bit 1 (take_bit (Suc n) c) = take_bit 1 c"
    by (simp add: min_def)
  then have "take_bit 1 c = 0"
    using assms by simp
  then have "c AND 1 = 0"
    by (simp add: take_bit_eq_mask)
  moreover have "take_bit n (drop_bit 1 c) = drop_bit 1 (take_bit (Suc n) c)"
    by (simp add: drop_bit_take_bit)
  ultimately show ?thesis
    using assms by (simp add: crc_round_def)
qed

lemma crc_rounds_shift: "take_bit n c = 0 \<Longrightarrow> crc_rounds n c = drop_bit n c"
proof (induction n arbitrary: c)
  case 0
  then show ?case by simp
next
  case (Suc n)
  from crc_round_even [OF Suc.prems]
  have r: "crc_round c = drop_bit 1 c" and t: "take_bit n (drop_bit 1 c) = 0"
    by simp_all
  show ?case
    using Suc.IH [OF t] r by (simp add: drop_bit_drop_bit)
qed

lemma crc_append:
  "computate_crc (xs @ ys) = fold (\<lambda>item crc. crc_byte crc item) ys (computate_crc xs)"
  by (simp add: computate_crc_def)

text \<open>Feeding the low byte of the accumulator clears its low half and shifts the rest down.\<close>

lemma crc_low_byte:
  "crc_byte c (word_of_int (c mod 256)) = c div 256"
proof -
  have u: "uint (word_of_int (c mod 256) :: byte) = take_bit 8 c"
    by (simp add: uint_word_of_int take_bit_eq_mod)
  have t: "take_bit 8 (c XOR take_bit 8 c) = 0"
    by (simp add: take_bit_xor)
  have d: "drop_bit 8 (c XOR take_bit 8 c) = drop_bit 8 c"
    by (simp add: drop_bit_xor drop_bit_take_bit)
  show ?thesis
    unfolding crc_byte_def u using crc_rounds_shift [OF t] d by (simp add: drop_bit_eq_div)
qed

lemma crc_high_byte:
  assumes "0 \<le> c" "c < 65536"
  shows "crc_byte (c div 256) (word_of_int (c div 256)) = 0"
proof -
  have "0 \<le> c div 256" "c div 256 < 256"
    using assms by simp_all
  then have u: "uint (word_of_int (c div 256) :: byte) = c div 256"
    by (simp add: uint_word_of_int)
  have z: "crc_rounds 8 0 = 0"
    by (simp add: eval_nat_numeral crc_round_def)
  show ?thesis
    unfolding crc_byte_def u by (simp add: z)
qed

lemma crc_le_bytes_valid: "computate_crc (body @ crc_le_bytes body) = 0"
proof -
  have r: "0 \<le> computate_crc body" "computate_crc body < 65536"
    using computate_crc_range [of body] by simp_all
  show ?thesis
    by (simp add: crc_le_bytes_def crc_append crc_low_byte crc_high_byte [OF r])
qed

text \<open>The loop as the specification words it.\<close>

lemma crc_round_parity: "crc_round c = (if odd c then c div 2 XOR 0xA001 else c div 2)"
  by (cases "odd c") (simp_all add: crc_round_def Let_def and_one_eq drop_bit_eq_div mod_2_eq_odd)

lemma crc_snoc:
  "computate_crc [] = 0xFFFF
   \<and> computate_crc (msg @ [b]) = crc_rounds 8 (computate_crc msg XOR uint b)"
  by (simp add: computate_crc_def crc_byte_def)

lemma xor_byte_low_half: "drop_bit 8 (c XOR uint (b :: byte)) = drop_bit 8 c"
proof -
  have "uint b < 2 ^ 8"
    using uint_lt2p [of b] by simp
  then have "drop_bit 8 (uint b) = 0"
    by (simp add: drop_bit_eq_div)
  then show ?thesis
    by (simp add: drop_bit_xor)
qed

text \<open>
  C3: the CRC starts from \<open>0xFFFF\<close>; each byte is combined by XOR, which changes the low
  8 bits only, and is followed by eight rounds, each a right shift with an XOR of \<open>0xA001\<close>
  when the bit shifted out was 1. The CRC of a message followed by its own CRC, packed as
  \<open>"<H"\<close> (which always succeeds and gives the low byte first), is 0; and \<open>_check_crc\<close>
  accepts a frame exactly when the CRC recomputed over the whole frame is 0.
\<close>

theorem crc_of_message_with_own_crc:
  "computate_crc [] = 0xFFFF
   \<and> computate_crc (msg @ [b]) = crc_rounds 8 (computate_crc msg XOR uint b)
   \<and> drop_bit 8 (c XOR uint b) = drop_bit 8 c
   \<and> crc_round c = (if odd c then c div 2 XOR 0xA001 else c div 2)
   \<and> pack_H_le (computate_crc msg) = Inr (crc_le_bytes msg)
   \<and> computate_crc (msg @ crc_le_bytes msg) = 0
   \<and> check_crc (msg @ crc_le_bytes msg)
   \<and> (check_crc received = (computate_crc received = 0))"
proof -
  have "pack_H_le (computate_crc msg) = Inr (crc_le_bytes msg)
        \<and> computate_crc (msg @ crc_le_bytes msg) = 0
        \<and> check_crc (msg @ crc_le_bytes msg)
        \<and> (check_crc received = (computate_crc received = 0))"
    by (simp add: pack_crc crc_le_bytes_valid check_crc_def)
  with crc_snoc [of msg b] xor_byte_low_half [of c b] crc_round_parity [of c]
  show ?thesis by blast
qed

section \<open>Request frames\<close>

lemma create_message_valid:
  assumes "snd r = 0 \<or> snd r = 1" "0 \<le> fst r" "fst r < 65536"
  shows "create_message r = Inr (spec_request_frame r)"
  using assms
  by (auto simp: create_message_def pack_2H_be_def pack_2B_01_03_def spec_request_frame_def
      request_layout_def quantity_of_kind_def pack_crc Let_def)

lemma create_messages_loop_valid:
  assumes "\<forall>r\<in>set rs. (snd r = 0 \<or> snd r = 1) \<and> 0 \<le> fst r \<and> fst r < 65536"
  shows "create_messages_loop rs acc = Inr (acc @ map spec_request_frame rs)"
  using assms
proof (induction rs arbitrary: acc)
  case Nil
  then show ?case by simp
next
  case (Cons r rs)
  then have "create_message r = Inr (spec_request_frame r)"
    by (intro create_message_valid) simp_all
  with Cons show ?case by simp
qed

lemma spec_request_frame_length: "length (spec_request_frame r) = 8"
  by (simp add: spec_request_frame_def request_layout_def crc_le_bytes_def Let_def)

lemma spec_request_frame_crc: "check_crc (spec_request_frame r)"
  by (simp add: check_crc_def spec_request_frame_def Let_def crc_le_bytes_valid)

lemma spec_request_frame_parts:
  "take 6 (spec_request_frame r) = request_layout (fst r) (quantity_of_kind (snd r))
   \<and> drop 6 (spec_request_frame r) = crc_le_bytes (take 6 (spec_request_frame r))"
  by (simp add: spec_request_frame_def request_layout_def Let_def)

lemma request_0010_frame: "spec_request_frame (16, 0) = request_0010"
  by code_simp

lemma request_0020_frame: "spec_request_frame (32, 1) = request_0020"
  by code_simp

text \<open>
  C2: for a register list whose kinds are all 0 (integer) or 1 (float) and whose addresses
  are 16-bit values, \<open>create_messages\<close> returns one frame per register, in input order;
  each frame has 8 bytes: 01, 03, the address high byte first, the quantity (1 or 2) high
  byte first, then the CRC of these 6 bytes low byte first; and each frame passes the CRC
  check.
\<close>

theorem create_messages_frames:
  assumes "\<forall>r\<in>set registers. (snd r = 0 \<or> snd r = 1) \<and> 0 \<le> fst r \<and> fst r < 65536"
  shows "create_messages registers = Inr (map spec_request_frame registers)
         \<and> (\<forall>r\<in>set registers.
               length (spec_request_frame r) = 8
               \<and> take 6 (spec_request_frame r)
                   = [0x01, 0x03, word_of_int (fst r div 256), word_of_int (fst r mod 256),
                      0x00, if snd r = 0 then 0x01 else 0x02]
               \<and> drop 6 (spec_request_frame r) = crc_le_bytes (take 6 (spec_request_frame r))
               \<and> check_crc (spec_request_frame r))"
proof -
  have "create_messages registers = Inr (map spec_request_frame registers)"
    using create_messages_loop_valid [OF assms, of "[]"] by (simp add: create_messages_def)
  moreover have "take 6 (spec_request_frame r)
                   = [0x01, 0x03, word_of_int (fst r div 256), word_of_int (fst r mod 256),
                      0x00, if snd r = 0 then 0x01 else 0x02]" for r
    by (simp add: spec_request_frame_parts request_layout_def quantity_of_kind_def)
  ultimately show ?thesis
    using spec_request_frame_parts
    by (simp add: spec_request_frame_length spec_request_frame_crc)
qed

theorem create_messages_frames_witness:
  "create_messages [(16, 0), (32, 1)] = Inr [request_0010, request_0020]
   \<and> length request_0010 = 8 \<and> check_crc request_0010
   \<and> length request_0020 = 8 \<and> check_crc request_0020"
  using create_messages_frames [of "[(16, 0), (32, 1)]"]
  by (simp add: request_0010_frame request_0020_frame)

section \<open>Response decoding\<close>

lemma py_range_2_2: "py_range 2 2 = [0]"
  by (simp add: py_range_def)

lemma py_range_4_4: "py_range 4 4 = [0]"
  by (simp add: py_range_def)

lemma uint_high_byte:
  "uint (word_of_int ((v mod 65536) div 256) :: byte) = (v mod 65536) div 256"
proof -
  have "0 \<le> (v mod 65536) div 256" "(v mod 65536) div 256 < 256"
    by simp_all
  then show ?thesis
    by (simp add: uint_word_of_int)
qed

lemma uint_low_byte: "uint (word_of_int (v mod 256) :: byte) = v mod 256"
  by (simp add: uint_word_of_int)

lemma recombine_bytes: "(v mod 65536) div 256 * 256 + v mod 256 = (v mod 65536 :: int)"
proof -
  have "v mod 256 = (v mod 65536) mod 256"
    by (simp add: mod_mod_cancel)
  then show ?thesis by simp
qed

lemma mod_65536_signed:
  fixes v :: int
  assumes "- 32768 \<le> v" "v < 32768"
  shows "v mod 65536 = (if v < 0 then v + 65536 else v)"
proof (cases "v < 0")
  case True
  have a: "(v + 65536) mod 65536 = v + 65536"
    by (rule mod_pos_pos_trivial) (use True assms in simp_all)
  have b: "(v + 65536) mod 65536 = v mod 65536"
    by simp
  show ?thesis
    using True a b by simp
next
  case False
  then show ?thesis
    using assms by (simp add: mod_pos_pos_trivial)
qed

text \<open>On either host the two data bytes are read with the first one as the high byte.\<close>

lemma int_decode_bytes:
  "get_int_value_from_response bo [u, fc, 2, hi, lo, c0, c1] =
     Inr (let w = uint hi * 256 + uint lo in if 32768 \<le> w then w - 65536 else w)"
  by (cases bo) (simp_all add: get_int_value_from_response_def py_range_2_2 unpack_h_def Let_def)

lemma int_roundtrip:
  assumes "- 32768 \<le> v" "v < 32768"
  shows "get_int_value_from_response bo ([u, fc, 2] @ wire_int16 v @ [c0, c1]) = Inr v"
proof -
  have "get_int_value_from_response bo ([u, fc, 2] @ wire_int16 v @ [c0, c1]) =
          Inr (if 32768 \<le> v mod 65536 then v mod 65536 - 65536 else v mod 65536)"
    by (simp only: wire_int16_def append.simps int_decode_bytes uint_high_byte uint_low_byte
        recombine_bytes Let_def)
  also have "\<dots> = Inr v"
    using assms by (simp add: mod_65536_signed)
  finally show ?thesis .
qed

lemma reply_42_layout: "reply_42 = [0x01, 0x03, 0x02, 0x00, 0x2A] @ crc_le_bytes [0x01, 0x03, 0x02, 0x00, 0x2A]"
  by code_simp

lemma int_swap_two_bytes:
  "int_swap_loop Little (py_range 2 2) [hi, lo] = Inr [lo, hi]
   \<and> int_swap_loop Big (py_range 2 2) [hi, lo] = Inr [hi, lo]"
  by (simp add: py_range_2_2)

text \<open>
  C6: an integer response with byte count 2 whose two data bytes are the big-endian
  two's-complement form of a signed 16-bit value \<open>v\<close> decodes to \<open>v\<close>, on a little-endian
  host and on a big-endian one; the loop exchanges the two data bytes on a little-endian
  host and leaves them as they are on a big-endian host; and the reply \<open>01 03 02 00 2A\<close>
  followed by its CRC decodes to 42.
\<close>

theorem get_int_value_decodes:
  "(- 32768 \<le> v \<and> v < 32768 \<longrightarrow>
      get_int_value_from_response bo ([u, fc, 2] @ wire_int16 v @ [c0, c1]) = Inr v)
   \<and> int_swap_loop Little (py_range 2 2) [hi, lo] = Inr [lo, hi]
   \<and> int_swap_loop Big (py_range 2 2) [hi, lo] = Inr [hi, lo]
   \<and> reply_42 = [0x01, 0x03, 0x02, 0x00, 0x2A] @ crc_le_bytes [0x01, 0x03, 0x02, 0x00, 0x2A]
   \<and> get_int_value_from_response bo reply_42 = Inr 42"
proof -
  have "get_int_value_from_response bo reply_42 = Inr 42"
    unfolding reply_42_def by (simp add: int_decode_bytes)
  moreover have "- 32768 \<le> v \<and> v < 32768 \<longrightarrow>
      get_int_value_from_response bo ([u, fc, 2] @ wire_int16 v @ [c0, c1]) = Inr v"
    using int_roundtrip [of v bo u fc c0 c1] by blast
  ultimately show ?thesis
    using reply_42_layout int_swap_two_bytes [of hi lo] by blast
qed

theorem get_int_value_decodes_witness:
  "get_int_value_from_response Little [0x01, 0x03, 0x02, 0xFF, 0xFE, 0x00, 0x00] = Inr (- 2)
   \<and> get_int_value_from_response Big [0x01, 0x03, 0x02, 0xFF, 0xFE, 0x00, 0x00] = Inr (- 2)"
  using get_int_value_decodes [of "- 2" Little 1 3 0 0 0 0]
        get_int_value_decodes [of "- 2" Big 1 3 0 0 0 0]
  by (simp add: wire_int16_def)

text \<open>
  C5: for a float response with byte count 4 and data bytes \<open>b0 b1 b2 b3\<close>, the bytes
  handed to the native float reading are \<open>b1 b0 b3 b2\<close> on a little-endian host and
  \<open>b2 b3 b0 b1\<close> on a big-endian host.
\<close>

theorem get_float_value_byte_order:
  "get_float_value_from_response native_float Little [u, fc, 4, b0, b1, b2, b3, c0, c1]
     = Inr (native_float Little [b1, b0, b3, b2])
   \<and> get_float_value_from_response native_float Big [u, fc, 4, b0, b1, b2, b3, c0, c1]
     = Inr (native_float Big [b2, b3, b0, b1])"
  by (simp add: get_float_value_from_response_def py_range_4_4 unpack_f_def Let_def)

section \<open>One pass over the request list\<close>

lemma handle_loop_all_replies:
  assumes "length ps = length ms"
    and "\<forall>i<length ms. net (log @ take (Suc i) ms) = Reply (ps ! i)"
  shows "handle_loop net ms acc mr log = (Inr (Some (acc @ ps)), log @ ms)"
  using assms
proof (induction ms arbitrary: ps acc mr log)
  case Nil
  then show ?case by simp
next
  case (Cons m rest)
  then obtain p ps' where ps: "ps = p # ps'" "length ps' = length rest"
    by (cases ps) auto
  have h: "net (log @ [m]) = Reply p"
    using Cons.prems(2) ps by (auto dest: spec [of _ 0])
  have t: "\<forall>i<length rest. net ((log @ [m]) @ take (Suc i) rest) = Reply (ps' ! i)"
  proof (intro allI impI)
    fix i assume "i < length rest"
    then have "net (log @ take (Suc (Suc i)) (m # rest)) = Reply (ps ! Suc i)"
      using Cons.prems(2) by auto
    then show "net ((log @ [m]) @ take (Suc i) rest) = Reply (ps' ! i)"
      using ps by simp
  qed
  show ?case
    using Cons.IH [OF ps(2) t, of "acc @ [p]" "Some p"] h ps by simp
qed

lemma handle_loop_Some:
  assumes "handle_loop net ms acc mr log = (Inr (Some rs), log')"
  shows "\<exists>ps. rs = acc @ ps \<and> length ps = length ms \<and> log' = log @ ms
          \<and> ((\<forall>i<length ms. net (log @ take (Suc i) ms) \<noteq> SocketError)
               \<longrightarrow> (\<forall>i<length ms. net (log @ take (Suc i) ms) = Reply (ps ! i)))"
  using assms
proof (induction ms arbitrary: acc mr log)
  case Nil
  then show ?case by simp
next
  case (Cons m rest)
  show ?case
  proof (cases "net (log @ [m])")
    case (Reply p)
    with Cons.prems have "handle_loop net rest (acc @ [p]) (Some p) (log @ [m]) = (Inr (Some rs), log')"
      by simp
    from Cons.IH [OF this] obtain ps where ps: "rs = (acc @ [p]) @ ps" "length ps = length rest"
      "log' = (log @ [m]) @ rest"
      "(\<forall>i<length rest. net ((log @ [m]) @ take (Suc i) rest) \<noteq> SocketError)
         \<longrightarrow> (\<forall>i<length rest. net ((log @ [m]) @ take (Suc i) rest) = Reply (ps ! i))"
      by blast
    have "(\<forall>i<length (m # rest). net (log @ take (Suc i) (m # rest)) \<noteq> SocketError)
         \<longrightarrow> (\<forall>i<length (m # rest). net (log @ take (Suc i) (m # rest)) = Reply ((p # ps) ! i))"
    proof (intro impI allI)
      fix i
      assume a: "\<forall>i<length (m # rest). net (log @ take (Suc i) (m # rest)) \<noteq> SocketError"
        and i: "i < length (m # rest)"
      have "\<forall>j<length rest. net ((log @ [m]) @ take (Suc j) rest) \<noteq> SocketError"
      proof (intro allI impI)
        fix j assume "j < length rest"
        then have "net (log @ take (Suc (Suc j)) (m # rest)) \<noteq> SocketError"
          using a by auto
        then show "net ((log @ [m]) @ take (Suc j) rest) \<noteq> SocketError" by simp
      qed
      with ps(4) have r: "\<forall>j<length rest. net ((log @ [m]) @ take (Suc j) rest) = Reply (ps ! j)"
        by blast
      show "net (log @ take (Suc i) (m # rest)) = Reply ((p # ps) ! i)"
      proof (cases i)
        case 0
        then show ?thesis using Reply by simp
      next
        case (Suc j)
        then show ?thesis using r i by simp
      qed
    qed
    with ps show ?thesis
      by (intro exI [of _ "p # ps"]) simp
  next
    case Timeout
    with Cons.prems show ?thesis by simp
  next
    case SocketError
    have ne: "\<not> (\<forall>i<length (m # rest). net (log @ take (Suc i) (m # rest)) \<noteq> SocketError)"
      using SocketError by (auto intro: exI [of _ 0])
    obtain q where q: "mr = Some q"
      using Cons.prems SocketError by (cases mr) auto
    with Cons.prems SocketError
    have "handle_loop net rest (acc @ [q]) mr (log @ [m]) = (Inr (Some rs), log')"
      by simp
    from Cons.IH [OF this] obtain ps where "rs = (acc @ [q]) @ ps" "length ps = length rest"
      "log' = (log @ [m]) @ rest"
      by blast
    then have "rs = acc @ (q # ps) \<and> length (q # ps) = length (m # rest) \<and> log' = log @ m # rest"
      by simp
    with ne show ?thesis
      by blast
  qed
qed

lemma handle_loop_timeout:
  assumes "handle_loop net ms acc mr log = (r, log')"
    and "k < length ms"
    and "length log + k < length log'"
    and "net (log @ take (Suc k) ms) = Timeout"
  shows "r = Inr None \<and> log' = log @ take (Suc k) ms"
  using assms
proof (induction ms arbitrary: acc mr log k)
  case Nil
  then show ?case by simp
next
  case (Cons m rest)
  show ?case
  proof (cases k)
    case 0
    with Cons.prems show ?thesis by simp
  next
    case (Suc j)
    have j: "j < length rest" using Cons.prems(2) Suc by simp
    have l: "length (log @ [m]) + j < length log'" using Cons.prems(3) Suc by simp
    have n: "net ((log @ [m]) @ take (Suc j) rest) = Timeout" using Cons.prems(4) Suc by simp
    show ?thesis
    proof (cases "net (log @ [m])")
      case (Reply p)
      with Cons.prems(1) have "handle_loop net rest (acc @ [p]) (Some p) (log @ [m]) = (r, log')"
        by simp
      from Cons.IH [OF this j l n] show ?thesis using Suc by simp
    next
      case Timeout
      with Cons.prems(1,3) Suc show ?thesis by auto
    next
      case SocketError
      show ?thesis
      proof (cases mr)
        case None
        with SocketError Cons.prems(1,3) Suc show ?thesis by auto
      next
        case (Some q)
        with SocketError Cons.prems(1)
        have "handle_loop net rest (acc @ [q]) mr (log @ [m]) = (r, log')" by simp
        from Cons.IH [OF this j l n] show ?thesis using Suc by simp
      qed
    qed
  qed
qed

lemma handle_loop_log:
  "handle_loop net ms acc mr log = (r, log') \<Longrightarrow>
     \<exists>n\<le>length ms. log' = log @ take n ms \<and> (ms \<noteq> [] \<longrightarrow> 0 < n)"
proof (induction ms arbitrary: acc mr log)
  case Nil
  then show ?case by simp
next
  case (Cons m rest)
  have base: "\<exists>n\<le>length (m # rest). log @ [m] = log @ take n (m # rest) \<and> (m # rest \<noteq> [] \<longrightarrow> 0 < n)"
    by (intro exI [of _ 1]) simp
  have step: "\<exists>n\<le>length (m # rest). log' = log @ take n (m # rest) \<and> (m # rest \<noteq> [] \<longrightarrow> 0 < n)"
    if "handle_loop net rest acc' mr' (log @ [m]) = (r, log')" for acc' mr'
  proof -
    from Cons.IH [OF that] obtain n where "n \<le> length rest" "log' = (log @ [m]) @ take n rest"
      by blast
    then show ?thesis by (intro exI [of _ "Suc n"]) simp
  qed
  show ?case
  proof (cases "net (log @ [m])")
    case (Reply p)
    with Cons.prems show ?thesis using step by simp
  next
    case Timeout
    with Cons.prems show ?thesis using base by simp
  next
    case SocketError
    with Cons.prems show ?thesis using base step by (cases mr) auto
  qed
qed

lemma handle_loop_error:
  "handle_loop net ms acc mr log = (Inl e, log') \<Longrightarrow> e = UnboundLocalError"
proof (induction ms arbitrary: acc mr log)
  case Nil
  then show ?case by simp
next
  case (Cons m rest)
  then show ?case
    by (cases "net (log @ [m])"; cases mr) (auto simp: Let_def)
qed

section \<open>The retry loop\<close>

lemma retry_loop_log:
  "retry_loop net mx ms r0 a log = (res, a', log') \<Longrightarrow> \<exists>ext. log' = log @ ext"
proof (induction net mx ms r0 a log rule: retry_loop.induct)
  case (1 net mx ms r0 a log)
  show ?case
  proof (cases "\<not> truthy r0 \<and> a < mx")
    case False
    with "1.prems" show ?thesis
      by (simp add: retry_loop.simps [of net mx ms r0 a log])
  next
    case True
    obtain x log1 where h: "handle_messages_via_socket net ms log = (x, log1)"
      by (cases "handle_messages_via_socket net ms log")
    from handle_loop_log [OF h [unfolded handle_messages_via_socket_def]]
    obtain n where l1: "log1 = log @ take n ms" by blast
    show ?thesis
    proof (cases x)
      case (Inl e)
      with "1.prems" True h have "log' = log1"
        by (simp add: retry_loop.simps [of net mx ms r0 a log])
      with l1 show ?thesis by blast
    next
      case (Inr received)
      with "1.prems" True h
      have "retry_loop net mx ms received (if \<not> truthy received then a + 1 else a) log1 = (res, a', log')"
        by (simp add: retry_loop.simps [of net mx ms r0 a log])
      from "1.IH" [OF True h [symmetric] Inr this] l1 show ?thesis by auto
    qed
  qed
qed

lemma retry_loop_error:
  "retry_loop net mx ms r0 a log = (Inl e, a', log') \<Longrightarrow> e = UnboundLocalError"
proof (induction net mx ms r0 a log rule: retry_loop.induct)
  case (1 net mx ms r0 a log)
  show ?case
  proof (cases "\<not> truthy r0 \<and> a < mx")
    case False
    with "1.prems" show ?thesis
      by (simp add: retry_loop.simps [of net mx ms r0 a log])
  next
    case True
    obtain x log1 where h: "handle_messages_via_socket net ms log = (x, log1)"
      by (cases "handle_messages_via_socket net ms log")
    show ?thesis
    proof (cases x)
      case (Inl e')
      with "1.prems" True h have "e' = e" "log1 = log'"
        by (simp_all add: retry_loop.simps [of net mx ms r0 a log])
      with h Inl show ?thesis
        using handle_loop_error [of net ms "[]" None log e log']
        by (simp add: handle_messages_via_socket_def)
    next
      case (Inr received)
      with "1.prems" True h
      have "retry_loop net mx ms received (if \<not> truthy received then a + 1 else a) log1 = (Inl e, a', log')"
        by (simp add: retry_loop.simps [of net mx ms r0 a log])
      from "1.IH" [OF True h [symmetric] Inr this] show ?thesis .
    qed
  qed
qed

lemma retry_loop_exhausted:
  "retry_loop net mx ms r0 a log = (Inr r, a', log') \<Longrightarrow> (truthy r0 \<longrightarrow> a < mx) \<Longrightarrow> truthy r \<Longrightarrow> a' < mx"
proof (induction net mx ms r0 a log rule: retry_loop.induct)
  case (1 net mx ms r0 a log)
  show ?case
  proof (cases "\<not> truthy r0 \<and> a < mx")
    case False
    with "1.prems" show ?thesis
      by (auto simp add: retry_loop.simps [of net mx ms r0 a log])
  next
    case True
    obtain x log1 where h: "handle_messages_via_socket net ms log = (x, log1)"
      by (cases "handle_messages_via_socket net ms log")
    show ?thesis
    proof (cases x)
      case (Inl e')
      with "1.prems" True h show ?thesis
        by (simp_all add: retry_loop.simps [of net mx ms r0 a log])
    next
      case (Inr received)
      with "1.prems" True h
      have "retry_loop net mx ms received (if \<not> truthy received then a + 1 else a) log1 = (Inr r, a', log')"
        by (simp add: retry_loop.simps [of net mx ms r0 a log])
      from "1.IH" [OF True h [symmetric] Inr this] True "1.prems"(3) show ?thesis by simp
    qed
  qed
qed

lemma retry_loop_pass:
  "retry_loop net mx ms r0 a log = (Inr r, a', log') \<Longrightarrow> \<not> truthy r0 \<Longrightarrow> truthy r \<Longrightarrow>
     \<exists>log0 ext. log0 = log @ ext \<and> handle_messages_via_socket net ms log0 = (Inr r, log')"
proof (induction net mx ms r0 a log rule: retry_loop.induct)
  case (1 net mx ms r0 a log)
  show ?case
  proof (cases "\<not> truthy r0 \<and> a < mx")
    case False
    with "1.prems" show ?thesis
      by (auto simp add: retry_loop.simps [of net mx ms r0 a log])
  next
    case True
    obtain x log1 where h: "handle_messages_via_socket net ms log = (x, log1)"
      by (cases "handle_messages_via_socket net ms log")
    from handle_loop_log [OF h [unfolded handle_messages_via_socket_def]]
    obtain n where l1: "log1 = log @ take n ms" by blast
    show ?thesis
    proof (cases x)
      case (Inl e')
      with "1.prems" True h show ?thesis
        by (simp_all add: retry_loop.simps [of net mx ms r0 a log])
    next
      case (Inr received)
      with "1.prems" True h
      have rl: "retry_loop net mx ms received (if \<not> truthy received then a + 1 else a) log1 = (Inr r, a', log')"
        by (simp add: retry_loop.simps [of net mx ms r0 a log])
      show ?thesis
      proof (cases "truthy received")
        case False
        from "1.IH" [OF True h [symmetric] Inr rl False "1.prems"(3)]
        obtain log0 ext where "log0 = log1 @ ext" "handle_messages_via_socket net ms log0 = (Inr r, log')"
          by blast
        with l1 show ?thesis by (intro exI [of _ log0] exI [of _ "take n ms @ ext"]) simp
      next
        case t: True
        with rl have "r = received" "log' = log1"
          by (simp_all add: retry_loop.simps [of net mx ms received a log1])
        with h Inr show ?thesis by (intro exI [of _ log] exI [of _ "[]"]) simp
      qed
    qed
  qed
qed

section \<open>The communication call\<close>

lemma retry_loop_raise_attempts:
  "retry_loop net mx ms r0 a log = (Inl e, a', log') \<Longrightarrow> a' < mx"
proof (induction net mx ms r0 a log rule: retry_loop.induct)
  case (1 net mx ms r0 a log)
  show ?case
  proof (cases "\<not> truthy r0 \<and> a < mx")
    case False
    with "1.prems" show ?thesis
      by (simp add: retry_loop.simps [of net mx ms r0 a log])
  next
    case True
    obtain x log1 where h: "handle_messages_via_socket net ms log = (x, log1)"
      by (cases "handle_messages_via_socket net ms log")
    show ?thesis
    proof (cases x)
      case (Inl e')
      with "1.prems" True h show ?thesis
        by (simp add: retry_loop.simps [of net mx ms r0 a log])
    next
      case (Inr received)
      with "1.prems" True h
      have "retry_loop net mx ms received (if \<not> truthy received then a + 1 else a) log1 = (Inl e, a', log')"
        by (simp add: retry_loop.simps [of net mx ms r0 a log])
      from "1.IH" [OF True h [symmetric] Inr this] show ?thesis .
    qed
  qed
qed

lemma socket_created_update: "(if \<not> socket_created s then s\<lparr>socket_created := True\<rparr> else s) = s\<lparr>socket_created := True\<rparr>"
  by (cases s) simp

lemma start_communication_unfold:
  "create_messages (register_addresses tr) = Inr ms \<Longrightarrow>
   retry_loop net (max_receive_attempts s) ms (Some []) 0 (sent s) = (res, a, log) \<Longrightarrow>
   start_communication net tr s =
     (let s' = s\<lparr>socket_created := True, receive_attempts := a, sent := log\<rparr>
      in case res of Inl e \<Rightarrow> (Inl e, s')
         | Inr r \<Rightarrow> if a = max_receive_attempts s \<and> \<not> broken tr then (Inl BrokenTransductorException, s') else (Inr r, s'))"
  by (simp add: start_communication_def socket_created_update manage_received_messages_def Let_def split: sum.splits)

lemma create_message_error:
  "create_message r = Inl e \<Longrightarrow> e = RegisterAddressException \<or> e = StructError"
  by (auto simp: create_message_def pack_2H_be_def pack_crc Let_def split: if_splits sum.splits)

lemma create_messages_loop_error:
  "create_messages_loop rs acc = Inl e \<Longrightarrow> e = RegisterAddressException \<or> e = StructError"
proof (induction rs arbitrary: acc)
  case Nil
  then show ?case by simp
next
  case (Cons r rs)
  then show ?case
    by (cases "create_message r") (auto dest: create_message_error)
qed

text \<open>
  C4: a communication call raises \<open>BrokenTransductorException\<close> exactly when the retry
  loop ends with \<open>receive_attempts = max_receive_attempts\<close> and the device is not flagged
  broken (a call whose frame construction fails never raises it). When the loop ends with
  the counter at the maximum and the device is already flagged broken, the call returns
  without error a value that is \<open>None\<close> or empty; when the counter is below the maximum,
  the call returns the collected responses.
\<close>

theorem broken_raised_iff_exhausted:
  "(\<forall>e. create_messages (register_addresses tr) = Inl e \<longrightarrow>
        fst (start_communication net tr s) \<noteq> Inl BrokenTransductorException)
   \<and> (\<forall>ms res a log.
        create_messages (register_addresses tr) = Inr ms \<and>
        retry_loop net (max_receive_attempts s) ms (Some []) 0 (sent s) = (res, a, log) \<longrightarrow>
          (fst (start_communication net tr s) = Inl BrokenTransductorException
             \<longleftrightarrow> a = max_receive_attempts s \<and> \<not> broken tr)
          \<and> (a = max_receive_attempts s \<and> broken tr \<longrightarrow>
               (\<exists>r. \<not> truthy r \<and> start_communication net tr s
                      = (Inr r, s\<lparr>socket_created := True, receive_attempts := a, sent := log\<rparr>)))
          \<and> (\<forall>r. a \<noteq> max_receive_attempts s \<and> res = Inr r \<longrightarrow>
               start_communication net tr s
                 = (Inr r, s\<lparr>socket_created := True, receive_attempts := a, sent := log\<rparr>)))"
proof (intro conjI allI impI)
  fix e assume "create_messages (register_addresses tr) = Inl e"
  then show "fst (start_communication net tr s) \<noteq> Inl BrokenTransductorException"
    using create_messages_loop_error [of "register_addresses tr" "[]" e]
    by (auto simp: start_communication_def create_messages_def Let_def)
next
  fix ms res a log
  assume h: "create_messages (register_addresses tr) = Inr ms \<and>
        retry_loop net (max_receive_attempts s) ms (Some []) 0 (sent s) = (res, a, log)"
  note u = start_communication_unfold [OF conjunct1 [OF h] conjunct2 [OF h]]
  show "fst (start_communication net tr s) = Inl BrokenTransductorException
             \<longleftrightarrow> a = max_receive_attempts s \<and> \<not> broken tr"
  proof (cases res)
    case (Inl e)
    with h have "e = UnboundLocalError" "a < max_receive_attempts s"
      by (auto dest: retry_loop_error retry_loop_raise_attempts)
    with Inl show ?thesis by (simp add: u Let_def)
  next
    case (Inr r)
    then show ?thesis by (simp add: u Let_def)
  qed
next
  fix ms res a log
  assume h: "create_messages (register_addresses tr) = Inr ms \<and>
        retry_loop net (max_receive_attempts s) ms (Some []) 0 (sent s) = (res, a, log)"
    and b: "a = max_receive_attempts s \<and> broken tr"
  note u = start_communication_unfold [OF conjunct1 [OF h] conjunct2 [OF h]]
  show "\<exists>r. \<not> truthy r \<and> start_communication net tr s
                      = (Inr r, s\<lparr>socket_created := True, receive_attempts := a, sent := log\<rparr>)"
  proof (cases res)
    case (Inl e)
    with h have "a < max_receive_attempts s"
      by (auto dest: retry_loop_raise_attempts)
    with b show ?thesis by simp
  next
    case (Inr r)
    have "truthy r \<Longrightarrow> a < max_receive_attempts s"
      using retry_loop_exhausted [of net "max_receive_attempts s" ms "Some []" 0 "sent s" r a log] h Inr
      by (simp add: truthy_def)
    with b have "\<not> truthy r" by auto
    with Inr b show ?thesis by (simp add: u Let_def)
  qed
next
  fix ms res a log r
  assume h: "create_messages (register_addresses tr) = Inr ms \<and>
        retry_loop net (max_receive_attempts s) ms (Some []) 0 (sent s) = (res, a, log)"
    and b: "a \<noteq> max_receive_attempts s \<and> res = Inr r"
  note u = start_communication_unfold [OF conjunct1 [OF h] conjunct2 [OF h]]
  from b show "start_communication net tr s
                 = (Inr r, s\<lparr>socket_created := True, receive_attempts := a, sent := log\<rparr>)"
    by (simp add: u Let_def)
qed

lemma one_int_register_messages: "create_messages one_int_register = Inr [request_0010]"
  by code_simp

lemma bad_kind_messages: "create_messages [(16, 0), (32, 7)] = Inl RegisterAddressException"
  by code_simp

lemma silent_retry_loop:
  "retry_loop net_silent 3 [request_0010] (Some []) 0 [] = (Inr None, 3, [request_0010, request_0010, request_0010])"
  by code_simp

theorem broken_raised_iff_exhausted_witness:
  "fst (start_communication net_silent \<lparr>register_addresses = one_int_register, broken = False\<rparr> udp_protocol_init)
     = Inl BrokenTransductorException
   \<and> (\<exists>r. \<not> truthy r \<and>
        start_communication net_silent \<lparr>register_addresses = one_int_register, broken = True\<rparr> udp_protocol_init
          = (Inr r, udp_protocol_init\<lparr>socket_created := True, receive_attempts := 3,
                                       sent := [request_0010, request_0010, request_0010]\<rparr>))
   \<and> fst (start_communication net_silent \<lparr>register_addresses = [(16, 0), (32, 7)], broken = False\<rparr>
            udp_protocol_init) \<noteq> Inl BrokenTransductorException"
  using broken_raised_iff_exhausted
          [of "\<lparr>register_addresses = one_int_register, broken = False\<rparr>" net_silent udp_protocol_init]
        broken_raised_iff_exhausted
          [of "\<lparr>register_addresses = one_int_register, broken = True\<rparr>" net_silent udp_protocol_init]
        broken_raised_iff_exhausted
          [of "\<lparr>register_addresses = [(16, 0), (32, 7)], broken = False\<rparr>" net_silent udp_protocol_init]
        one_int_register_messages silent_retry_loop bad_kind_messages
  by (simp add: udp_protocol_init_def)

lemma retry_loop_first_pass:
  assumes "0 < mx" "truthy r"
    and "handle_messages_via_socket net ms log = (Inr r, log')"
  shows "retry_loop net mx ms (Some []) 0 log = (Inr r, 0, log')"
proof -
  have "retry_loop net mx ms (Some []) 0 log = retry_loop net mx ms r 0 log'"
    using assms by (simp add: retry_loop.simps [of net mx ms "Some []" 0 log] truthy_def)
  also have "\<dots> = (Inr r, 0, log')"
    using assms(2) by (simp add: retry_loop.simps [of net mx ms r 0 log'])
  finally show ?thesis .
qed

text \<open>
  C7, as the code has it: when the request list is not empty, \<open>max_receive_attempts\<close> is
  positive and every frame of the first pass is answered, the call returns after that one
  pass (the send log grows by exactly the request list), with the replies in request order
  and with \<open>receive_attempts = 0\<close>: the counter counts failed passes only.
\<close>

theorem first_pass_success_returns:
  assumes "create_messages (register_addresses tr) = Inr ms"
    and "ms \<noteq> []"
    and "0 < max_receive_attempts s"
    and "length ps = length ms"
    and "\<forall>i<length ms. net (sent s @ take (Suc i) ms) = Reply (ps ! i)"
  shows "start_communication net tr s
           = (Inr (Some ps), s\<lparr>socket_created := True, receive_attempts := 0, sent := sent s @ ms\<rparr>)"
proof -
  have h: "handle_messages_via_socket net ms (sent s) = (Inr (Some ps), sent s @ ms)"
    using handle_loop_all_replies [OF assms(4,5), of "[]" None]
    by (simp add: handle_messages_via_socket_def)
  have t: "truthy (Some ps)"
    using assms(2,4) by (auto simp: truthy_def)
  have "retry_loop net (max_receive_attempts s) ms (Some []) 0 (sent s) = (Inr (Some ps), 0, sent s @ ms)"
    by (rule retry_loop_first_pass [OF assms(3) t h])
  from start_communication_unfold [OF assms(1) this] assms(3) show ?thesis
    by (simp add: Let_def)
qed

theorem first_pass_success_returns_witness:
  "start_communication net_answering \<lparr>register_addresses = one_int_register, broken = False\<rparr> udp_protocol_init
     = (Inr (Some [reply_42]),
        \<lparr>socket_created = True, receive_attempts = 0, max_receive_attempts = 3, sent = [request_0010]\<rparr>)"
  using first_pass_success_returns
          [of "\<lparr>register_addresses = one_int_register, broken = False\<rparr>" "[request_0010]"
              udp_protocol_init "[reply_42]" net_answering]
        one_int_register_messages
  by (simp add: udp_protocol_init_def net_answering_def)

text \<open>
  C7 as stated fails: after a first pass that answers the one request, the counter
  \<open>receive_attempts\<close> is 0, not 1; and for an empty request list, where every sent frame
  is answered vacuously, the call passes three times and raises.
\<close>

theorem first_pass_counter_counterexample:
  "fst (start_communication net_answering \<lparr>register_addresses = one_int_register, broken = False\<rparr> udp_protocol_init)
     = Inr (Some [reply_42])
   \<and> receive_attempts (snd (start_communication net_answering
        \<lparr>register_addresses = one_int_register, broken = False\<rparr> udp_protocol_init)) = 0
   \<and> create_messages [] = Inr []
   \<and> fst (start_communication net_answering \<lparr>register_addresses = [], broken = False\<rparr> udp_protocol_init)
     = Inl BrokenTransductorException
   \<and> receive_attempts (snd (start_communication net_answering
        \<lparr>register_addresses = [], broken = False\<rparr> udp_protocol_init)) = 3"
  by code_simp

lemma answering_call:
  "start_communication net_answering \<lparr>register_addresses = one_int_register, broken = False\<rparr> udp_protocol_init
     = (Inr (Some [reply_42]),
        \<lparr>socket_created = True, receive_attempts = 0, max_receive_attempts = 3, sent = [request_0010]\<rparr>)"
  by code_simp

text \<open>
  C1, as the code has it: a call that returns a non-empty response list returns exactly one
  element per request frame, produced by one pass over the whole request list; and when no
  exchange of that pass failed with a soft socket error, the element at each position is
  the payload received in reply to the request at that position.
\<close>

theorem returned_list_matches_requests:
  assumes "create_messages (register_addresses tr) = Inr ms"
    and "start_communication net tr s = (Inr (Some rs), s')"
    and "rs \<noteq> []"
  shows "length rs = length ms
         \<and> (\<exists>log0. sent s' = log0 @ ms
              \<and> ((\<forall>i<length ms. net (log0 @ take (Suc i) ms) \<noteq> SocketError)
                   \<longrightarrow> (\<forall>i<length ms. net (log0 @ take (Suc i) ms) = Reply (rs ! i))))"
proof -
  obtain res a log where rl: "retry_loop net (max_receive_attempts s) ms (Some []) 0 (sent s) = (res, a, log)"
    by (cases "retry_loop net (max_receive_attempts s) ms (Some []) 0 (sent s)")
  from start_communication_unfold [OF assms(1) rl] assms(2)
  have res: "res = Inr (Some rs)" and s': "sent s' = log"
    by (auto simp: Let_def split: sum.splits if_splits)
  have t: "truthy (Some rs)" using assms(3) by (simp add: truthy_def)
  from retry_loop_pass [OF rl [unfolded res] _ t]
  obtain log0 where "handle_messages_via_socket net ms log0 = (Inr (Some rs), log)"
    by (auto simp: truthy_def)
  from handle_loop_Some [OF this [unfolded handle_messages_via_socket_def]]
  obtain ps where "rs = ps" "length ps = length ms" "log = log0 @ ms"
    "(\<forall>i<length ms. net (log0 @ take (Suc i) ms) \<noteq> SocketError)
       \<longrightarrow> (\<forall>i<length ms. net (log0 @ take (Suc i) ms) = Reply (ps ! i))"
    by auto
  with s' show ?thesis by blast
qed

theorem returned_list_matches_requests_witness:
  "length [reply_42] = length [request_0010]
   \<and> net_answering ([] @ take (Suc 0) [request_0010]) = Reply ([reply_42] ! 0)"
  using returned_list_matches_requests
          [of "\<lparr>register_addresses = one_int_register, broken = False\<rparr>" "[request_0010]"
              net_answering udp_protocol_init "[reply_42]"
              "\<lparr>socket_created = True, receive_attempts = 0, max_receive_attempts = 3, sent = [request_0010]\<rparr>"]
        one_int_register_messages answering_call
  by (simp add: net_answering_def)

text \<open>
  C1 as stated fails: with a device already flagged broken that never answers, the call
  returns without an exception, and what it returns is \<open>None\<close>, not one response for the
  one request sent.
\<close>

theorem broken_device_returns_none_counterexample:
  "create_messages one_int_register = Inr [request_0010]
   \<and> fst (start_communication net_silent \<lparr>register_addresses = one_int_register, broken = True\<rparr> udp_protocol_init)
     = Inr None"
  by code_simp

lemma create_messages_loop_bad_kind:
  assumes "\<exists>r\<in>set rs. snd r \<noteq> 0 \<and> snd r \<noteq> 1"
  shows "\<exists>e. create_messages_loop rs acc = Inl e
           \<and> ((\<forall>r\<in>set rs. 0 \<le> fst r \<and> fst r < 65536) \<longrightarrow> e = RegisterAddressException)"
  using assms
proof (induction rs arbitrary: acc)
  case Nil
  then show ?case by simp
next
  case (Cons r rs)
  show ?case
  proof (cases "snd r \<noteq> 0 \<and> snd r \<noteq> 1")
    case True
    then have "create_message r = Inl RegisterAddressException"
      by (simp add: create_message_def)
    then show ?thesis by simp
  next
    case False
    with Cons.prems have bad: "\<exists>r\<in>set rs. snd r \<noteq> 0 \<and> snd r \<noteq> 1"
      by auto
    show ?thesis
    proof (cases "0 \<le> fst r \<and> fst r < 65536")
      case True
      with False have "create_message r = Inr (spec_request_frame r)"
        by (intro create_message_valid) auto
      with Cons.IH [OF bad, of "acc @ [spec_request_frame r]"] True show ?thesis
        by auto
    next
      case out: False
      with False have "create_message r = Inl StructError"
        by (auto simp: create_message_def pack_2H_be_def)
      with out show ?thesis by auto
    qed
  qed
qed

text \<open>
  C9: when some register has a kind other than 0 and 1, frame construction fails and no
  frame list is returned; the communication call returns that same error at once, having
  only created the socket: the counter is not reset and nothing is sent. With 16-bit
  addresses the error is \<open>RegisterAddressException\<close>.
\<close>

theorem bad_kind_aborts_before_retry:
  assumes "\<exists>r\<in>set (register_addresses tr). snd r \<noteq> 0 \<and> snd r \<noteq> 1"
  shows "\<exists>e. create_messages (register_addresses tr) = Inl e
           \<and> start_communication net tr s = (Inl e, s\<lparr>socket_created := True\<rparr>)
           \<and> ((\<forall>r\<in>set (register_addresses tr). 0 \<le> fst r \<and> fst r < 65536)
                \<longrightarrow> e = RegisterAddressException)"
proof -
  from create_messages_loop_bad_kind [OF assms, of "[]"]
  obtain e where e: "create_messages (register_addresses tr) = Inl e"
    "(\<forall>r\<in>set (register_addresses tr). 0 \<le> fst r \<and> fst r < 65536) \<longrightarrow> e = RegisterAddressException"
    by (auto simp: create_messages_def)
  have "start_communication net tr s = (Inl e, s\<lparr>socket_created := True\<rparr>)"
    using e(1) by (simp add: start_communication_def socket_created_update)
  with e show ?thesis by blast
qed

theorem bad_kind_aborts_before_retry_witness:
  "create_messages [(16, 0), (32, 7)] = Inl RegisterAddressException
   \<and> start_communication net_answering \<lparr>register_addresses = [(16, 0), (32, 7)], broken = False\<rparr> udp_protocol_init
       = (Inl RegisterAddressException,
          \<lparr>socket_created = True, receive_attempts = 0, max_receive_attempts = 3, sent = []\<rparr>)"
  using bad_kind_aborts_before_retry
          [of "\<lparr>register_addresses = [(16, 0), (32, 7)], broken = False\<rparr>" net_answering udp_protocol_init]
  by (auto simp: udp_protocol_init_def)

text \<open>
  C10: what the code does on a soft socket error. On the first frame of a pass the
  \<open>append\<close> reads the unbound variable and the pass ends with \<open>UnboundLocalError\<close>; on a
  later frame the payload of the previous frame is appended a second time.
\<close>

theorem soft_error_reads_stale_reply:
  "handle_messages_via_socket net_failing [request_0010] [] = (Inl UnboundLocalError, [request_0010])
   \<and> handle_messages_via_socket net_first_only [request_0010, request_0020] []
       = (Inr (Some [reply_42, reply_42]), [request_0010, request_0020])"
  by code_simp

lemma handle_first_frame:
  assumes "handle_messages_via_socket net ms log = (r, log')" "ms \<noteq> []"
  shows "\<exists>rest. log' = log @ hd ms # rest"
proof -
  from handle_loop_log [OF assms(1) [unfolded handle_messages_via_socket_def]] assms(2)
  obtain n where n: "n \<le> length ms" "log' = log @ take n ms" "0 < n"
    by blast
  obtain m rest where ms: "ms = m # rest"
    using assms(2) by (cases ms) auto
  obtain j where j: "n = Suc j"
    using n(3) by (cases n) auto
  show ?thesis
    using n(2) ms j by simp
qed

text \<open>
  C8: when the exchange for frame \<open>k\<close> of a pass is reached and times out, the pass ends
  there with \<open>None\<close>, the frames after \<open>k\<close> are not sent, and the retry loop goes on with
  one more failed attempt from the state the pass left; if attempts remain, the next
  datagram sent is the first frame of the request list.
\<close>

theorem timeout_aborts_pass:
  assumes "handle_messages_via_socket net ms log = (r, log')"
    and "k < length ms"
    and "length log + k < length log'"
    and "net (log @ take (Suc k) ms) = Timeout"
  shows "r = Inr None
         \<and> log' = log @ take (Suc k) ms
         \<and> (\<not> truthy r0 \<and> a < mx \<longrightarrow>
              retry_loop net mx ms r0 a log = retry_loop net mx ms None (a + 1) log')
         \<and> (\<not> truthy r0 \<and> a + 1 < mx \<longrightarrow>
              (\<exists>rest. snd (snd (retry_loop net mx ms r0 a log)) = log' @ hd ms # rest))"
proof -
  have t: "r = Inr None \<and> log' = log @ take (Suc k) ms"
    using handle_loop_timeout [OF assms(1) [unfolded handle_messages_via_socket_def] assms(2,3,4)] .
  have step: "retry_loop net mx ms r0 a log = retry_loop net mx ms None (a + 1) log'"
    if "\<not> truthy r0 \<and> a < mx"
    using that assms(1) t
    by (simp add: retry_loop.simps [of net mx ms r0 a log] truthy_def)
  have again: "\<exists>rest. snd (snd (retry_loop net mx ms r0 a log)) = log' @ hd ms # rest"
    if h: "\<not> truthy r0 \<and> a + 1 < mx"
  proof -
    have ne: "ms \<noteq> []" using assms(2) by auto
    obtain x log2 where p: "handle_messages_via_socket net ms log' = (x, log2)"
      by (cases "handle_messages_via_socket net ms log'")
    from handle_first_frame [OF p ne] obtain rest where l2: "log2 = log' @ hd ms # rest"
      by blast
    have s: "retry_loop net mx ms r0 a log = retry_loop net mx ms None (a + 1) log'"
      using step h by simp
    show ?thesis
    proof (cases x)
      case (Inl e)
      then have "retry_loop net mx ms None (a + 1) log' = (Inl e, a + 1, log2)"
        using h p by (simp add: retry_loop.simps [of net mx ms None "a + 1" log'] truthy_def)
      with s l2 show ?thesis by simp
    next
      case (Inr received)
      obtain res a' logf where f: "retry_loop net mx ms received
            (if \<not> truthy received then a + 1 + 1 else a + 1) log2 = (res, a', logf)"
        by (cases "retry_loop net mx ms received (if \<not> truthy received then a + 1 + 1 else a + 1) log2")
      from retry_loop_log [OF f] obtain ext where "logf = log2 @ ext" by blast
      moreover have "retry_loop net mx ms None (a + 1) log' = (res, a', logf)"
        using h p Inr f by (simp add: retry_loop.simps [of net mx ms None "a + 1" log'] truthy_def)
      ultimately show ?thesis using s l2 by simp
    qed
  qed
  from t step again show ?thesis by blast
qed

lemma silent_pass: "handle_messages_via_socket net_silent [request_0010, request_0020] [] = (Inr None, [request_0010])"
  by code_simp

theorem timeout_aborts_pass_witness:
  "handle_messages_via_socket net_silent [request_0010, request_0020] [] = (Inr None, [request_0010])
   \<and> (\<exists>rest. snd (snd (retry_loop net_silent 3 [request_0010, request_0020] (Some []) 0 []))
                = [request_0010] @ hd [request_0010, request_0020] # rest)"
proof -
  have k: "0 < length [request_0010, request_0020]"
    by simp
  have l: "length ([] :: frame list) + 0 < length [request_0010]"
    by simp
  have n: "net_silent ([] @ take (Suc 0) [request_0010, request_0020]) = Timeout"
    by (simp add: net_silent_def)
  have c: "\<not> truthy (Some []) \<and> (0::int) + 1 < 3"
    by (simp add: truthy_def)
  from timeout_aborts_pass [OF silent_pass k l n, of "Some []" 0 3] c
  have "\<exists>rest. snd (snd (retry_loop net_silent 3 [request_0010, request_0020] (Some []) 0 []))
                = [request_0010] @ hd [request_0010, request_0020] # rest"
    by blast
  with silent_pass show ?thesis by blast
qed

end
